theory Spec2Isabelle
  imports Main "HOL-Library.Word"
begin

unbundle bit_operations_syntax

section \<open>Shared utilities (security\_utils.cpp)\<close>

subsection \<open>Data model (security\_utils.h)\<close>

datatype Operation = Read | Append

datatype Permission = ReadOnly | AppendOnly | ReadWrite

record UserTokenInfo =
  actorId :: string
  permission :: Permission
  tokenHash :: string

text \<open>The in-memory log entry; all five fields are strings, as in the header.\<close>

record LogEntry =
  timestamp :: string
  entryActorId :: string
  personId :: string
  action :: string
  roomId :: string

subsection \<open>Character classes\<close>

text \<open>
  \<open>std::isdigit\<close> and \<open>std::isalnum\<close> on the \<open>unsigned char\<close> value of a byte. Neither
  program calls \<open>setlocale\<close>, so the "C" locale applies: digits are 0x30..0x39 and
  letters are 0x41..0x5A and 0x61..0x7A.
\<close>

definition isdigit :: "char \<Rightarrow> bool" where
  "isdigit c = (let n = (of_char c :: nat) in 48 \<le> n \<and> n \<le> 57)"

definition isalnum :: "char \<Rightarrow> bool" where
  "isalnum c = (let n = (of_char c :: nat) in
     (48 \<le> n \<and> n \<le> 57) \<or> (65 \<le> n \<and> n \<le> 90) \<or> (97 \<le> n \<and> n \<le> 122))"

subsection \<open>Field validation\<close>

text \<open>The range-for loop that returns false at the first offending byte.\<close>

fun all_chars :: "(char \<Rightarrow> bool) \<Rightarrow> string \<Rightarrow> bool" where
  "all_chars ok [] = True"
| "all_chars ok (c # cs) = (if \<not> ok c then False else all_chars ok cs)"

definition validIdLike :: "string \<Rightarrow> bool" where
  "validIdLike s =
     (if s = [] \<or> length s > 32 then False
      else all_chars (\<lambda>c. isalnum c \<or> c = CHR ''_'' \<or> c = CHR ''-'') s)"

definition validateAction :: "string \<Rightarrow> bool" where
  "validateAction a = (a = ''ENTER'' \<or> a = ''MOVE'' \<or> a = ''EXIT'')"

definition ROOMS :: "string list" where
  "ROOMS = [''lobby'', ''gallery1'', ''gallery2'', ''vault'', ''security'', ''storage'', ''-'']"

definition validateRoomId :: "string \<Rightarrow> bool" where
  "validateRoomId r = (r \<in> set ROOMS)"

definition validatePersonId :: "string \<Rightarrow> bool" where
  "validatePersonId i = validIdLike i"

definition validateTimestamp :: "string \<Rightarrow> bool" where
  "validateTimestamp ts =
     (if ts = [] \<or> length ts > 11 then False else all_chars isdigit ts)"

subsection \<open>Log codec\<close>

text \<open>
  \<open>split\<close>: one pass over the bytes with the vector \<open>out\<close> and the current part
  \<open>cur\<close>; the last part is pushed after the loop, so the result is never empty.
\<close>

fun split_loop :: "char \<Rightarrow> string \<Rightarrow> string list \<Rightarrow> string \<Rightarrow> string list" where
  "split_loop delim [] out cur = out @ [cur]"
| "split_loop delim (c # cs) out cur =
     (if c = delim then split_loop delim cs (out @ [cur]) []
      else split_loop delim cs out (cur @ [c]))"

definition split_str :: "string \<Rightarrow> char \<Rightarrow> string list" where
  "split_str s delim = split_loop delim s [] []"

definition formatLogEntry :: "LogEntry \<Rightarrow> string" where
  "formatLogEntry e =
     timestamp e @ [CHR ''|''] @ entryActorId e @ [CHR ''|''] @ personId e @ [CHR ''|'']
       @ action e @ [CHR ''|''] @ roomId e @ [CHR 0x0A]"

text \<open>The \<open>while\<close> loop of \<open>parseLogLine\<close> that pops trailing line feeds and carriage returns.\<close>

function strip_eol :: "string \<Rightarrow> string" where
  "strip_eol s =
     (if s \<noteq> [] \<and> (last s = CHR 0x0A \<or> last s = CHR 0x0D) then strip_eol (butlast s) else s)"
  by pat_completeness auto
termination
  by (relation "measure length") auto

declare strip_eol.simps [simp del]

text \<open>
  \<open>parseLogLine\<close>: the boolean result and the out-parameter become an option. The five
  checks run in the source's order.
\<close>

definition parseLogLine :: "string \<Rightarrow> LogEntry option" where
  "parseLogLine line =
     (let s = strip_eol line; parts = split_str s (CHR ''|'') in
      if length parts \<noteq> 5 then None
      else let ts = parts ! 0; aid = parts ! 1; pid = parts ! 2; act = parts ! 3; rm = parts ! 4 in
        if \<not> validateTimestamp ts then None
        else if \<not> validIdLike aid then None
        else if \<not> validatePersonId pid then None
        else if \<not> validateAction act then None
        else if \<not> validateRoomId rm then None
        else Some \<lparr>timestamp = ts, entryActorId = aid, personId = pid, action = act, roomId = rm\<rparr>)"

subsection \<open>Tokens and authentication\<close>

text \<open>
  \<open>constantTimeEquals\<close>: after the length check, one accumulator byte collects the XOR
  of every pair of bytes; the strings are equal iff it is still zero.
\<close>

definition byte_of :: "char \<Rightarrow> 8 word" where
  "byte_of c = of_nat (of_char c)"

definition constantTimeEquals :: "string \<Rightarrow> string \<Rightarrow> bool" where
  "constantTimeEquals a b =
     (if length a \<noteq> length b then False
      else foldl (\<lambda>diff (x, y). diff OR (byte_of x XOR byte_of y)) 0 (zip a b) = 0)"

definition BUILT_IN_STORE :: "UserTokenInfo list" where
  "BUILT_IN_STORE =
     [\<lparr>actorId = ''guard_alex'', permission = AppendOnly,
        tokenHash = ''e45703ec0bf6e9b29fec9e4819f33c7c8a302d93eccef0f7bddd57c80c93f5a0''\<rparr>,
      \<lparr>actorId = ''manager_kim'', permission = ReadOnly,
        tokenHash = ''12ae512c7eeda74af4e625e1fe2888645c434586d24b75ea3302d3d75d121130''\<rparr>,
      \<lparr>actorId = ''admin_lee'', permission = ReadWrite,
        tokenHash = ''f929608275fa3fa111110583af685764f71a1ddc67dd2af65284e35eceb583ad''\<rparr>]"

definition getBuiltInTokenStore :: "UserTokenInfo list" where
  "getBuiltInTokenStore = BUILT_IN_STORE"

fun permissionAllows :: "Permission \<Rightarrow> Operation \<Rightarrow> bool" where
  "permissionAllows ReadWrite opn = True"
| "permissionAllows ReadOnly opn = (opn = Read)"
| "permissionAllows AppendOnly opn = (opn = Append)"

text \<open>
  The scan of \<open>authenticateToken\<close>: the first record whose hash matches decides; the scan
  does not go on after a match without permission.
\<close>

fun scan_store :: "string \<Rightarrow> Operation \<Rightarrow> UserTokenInfo list \<Rightarrow> UserTokenInfo option" where
  "scan_store providedHash requiredOp [] = None"
| "scan_store providedHash requiredOp (user # rest) =
     (if constantTimeEquals providedHash (tokenHash user)
      then (if permissionAllows (permission user) requiredOp then Some user else None)
      else scan_store providedHash requiredOp rest)"

text \<open>
  \<open>sha256Hex\<close> calls OpenSSL's SHA-256, which is not part of the repository: the digest
  function is the first parameter of \<open>authenticateToken\<close> and of both programs. The
  null pointer is \<open>None\<close>.
\<close>

definition authenticateToken ::
    "(string \<Rightarrow> string) \<Rightarrow> string \<Rightarrow> Operation \<Rightarrow> UserTokenInfo list \<Rightarrow> UserTokenInfo option" where
  "authenticateToken sha256Hex providedToken requiredOp store =
     (if providedToken = [] then None
      else scan_store (sha256Hex providedToken) requiredOp store)"

text \<open>
  The SHA-256 digests of the three tokens used by test\_cases.cpp (they are the hashes of
  the built-in store); every other input gets the empty digest, which matches no record.
  It stands for \<open>sha256Hex\<close> where a concrete run of the programs is evaluated.
\<close>

definition test_digest :: "string \<Rightarrow> string" where
  "test_digest s =
     (if s = ''alex-write-123'' then ''e45703ec0bf6e9b29fec9e4819f33c7c8a302d93eccef0f7bddd57c80c93f5a0''
      else if s = ''kim-read-456'' then ''12ae512c7eeda74af4e625e1fe2888645c434586d24b75ea3302d3d75d121130''
      else if s = ''lee-admin-789'' then ''f929608275fa3fa111110583af685764f71a1ddc67dd2af65284e35eceb583ad''
      else [])"

section \<open>State reconstruction and the rules (logappend.cpp)\<close>

record PersonState =
  inside :: bool
  room :: string

type_synonym gallery_state = "string \<rightharpoonup> PersonState"

text \<open>
  One pass of the replay loop for a parsed entry. \<open>state[e.personId]\<close> creates the
  default entry (outside, empty room) when the person is new, also when no branch of the
  chain on the action fires.
\<close>

definition apply_entry :: "gallery_state \<Rightarrow> LogEntry \<Rightarrow> gallery_state" where
  "apply_entry st e =
     (let ps = (case st (personId e) of None \<Rightarrow> \<lparr>inside = False, room = []\<rparr> | Some p \<Rightarrow> p) in
      if action e = ''ENTER'' then st(personId e \<mapsto> ps\<lparr>inside := True, room := roomId e\<rparr>)
      else if action e = ''MOVE'' then st(personId e \<mapsto> ps\<lparr>inside := True, room := roomId e\<rparr>)
      else if action e = ''EXIT'' then st(personId e \<mapsto> ps\<lparr>inside := False, room := []\<rparr>)
      else st(personId e \<mapsto> ps))"

definition replay_step :: "gallery_state \<Rightarrow> string \<Rightarrow> gallery_state" where
  "replay_step st line = (case parseLogLine line of None \<Rightarrow> st | Some e \<Rightarrow> apply_entry st e)"

fun replay_lines :: "gallery_state \<Rightarrow> string list \<Rightarrow> gallery_state" where
  "replay_lines st [] = st"
| "replay_lines st (line # rest) = replay_lines (replay_step st line) rest"

text \<open>
  \<open>while (std::getline(in, line))\<close>: each call takes the bytes up to the next line feed
  and drops the line feed; at the end of the file a last line without line feed is still
  delivered, and a call that extracts nothing ends the loop.
\<close>

function getlines :: "string \<Rightarrow> string list" where
  "getlines s =
     (if s = [] then []
      else takeWhile (\<lambda>c. c \<noteq> CHR 0x0A) s # getlines (drop 1 (dropWhile (\<lambda>c. c \<noteq> CHR 0x0A) s)))"
  by pat_completeness auto
termination
proof (relation "measure length")
  show "wf (measure length)" by simp
next
  fix s :: string
  assume "s \<noteq> []"
  then have pos: "0 < length s" by simp
  have le: "length (dropWhile (\<lambda>c. c \<noteq> CHR 0x0A) s) \<le> length s"
    by (rule length_dropWhile_le)
  have "length (dropWhile (\<lambda>c. c \<noteq> CHR 0x0A) s) - 1 < length s"
    using pos le by arith
  then show "(drop 1 (dropWhile (\<lambda>c. c \<noteq> CHR 0x0A) s), s) \<in> measure length"
    by simp
qed

declare getlines.simps [simp del]

definition currentlyInside :: "gallery_state \<Rightarrow> string \<Rightarrow> bool" where
  "currentlyInside st p = (case st p of None \<Rightarrow> False | Some ps \<Rightarrow> inside ps)"

definition currentRoom :: "gallery_state \<Rightarrow> string \<Rightarrow> string" where
  "currentRoom st p = (case st p of None \<Rightarrow> [] | Some ps \<Rightarrow> if inside ps then room ps else [])"

text \<open>One constructor for each error message of the rule checks.\<close>

datatype rule_error =
    EnterAlreadyInside
  | EnterConcreteRoom
  | MoveNotInside
  | MoveSameRoom
  | MoveConcreteRoom
  | ExitNotInside
  | ExitRoomMismatch

text \<open>The rule checks of \<open>main\<close> for the new event; \<open>None\<close> means that no check fired.\<close>

definition check_rules :: "gallery_state \<Rightarrow> string \<Rightarrow> string \<Rightarrow> string \<Rightarrow> rule_error option" where
  "check_rules st pid event rid =
     (let inside_now = currentlyInside st pid; cur = currentRoom st pid in
      if event = ''ENTER'' then
        (if inside_now then Some EnterAlreadyInside
         else if rid = ''-'' then Some EnterConcreteRoom
         else None)
      else if event = ''MOVE'' then
        (if \<not> inside_now then Some MoveNotInside
         else if rid = cur then Some MoveSameRoom
         else if rid = ''-'' then Some MoveConcreteRoom
         else None)
      else if event = ''EXIT'' then
        (if \<not> inside_now then Some ExitNotInside
         else if \<not> (rid = ''-'' \<or> rid = cur) then Some ExitRoomMismatch
         else None)
      else None)"

section \<open>The append program (logappend.cpp)\<close>

record cli_args =
  argToken :: string
  argEvent :: string
  argPerson :: string
  argRoom :: string

text \<open>
  The loop over \<open>argv[1..]\<close>: a flag followed by another argument consumes both, anything
  else is stepped over.
\<close>

fun parse_args :: "string list \<Rightarrow> cli_args \<Rightarrow> cli_args" where
  "parse_args (arg # v # rest) a =
     (if arg = ''-T'' then parse_args rest (a\<lparr>argToken := v\<rparr>)
      else if arg = ''-E'' then parse_args rest (a\<lparr>argEvent := v\<rparr>)
      else if arg = ''-P'' then parse_args rest (a\<lparr>argPerson := v\<rparr>)
      else if arg = ''-R'' then parse_args rest (a\<lparr>argRoom := v\<rparr>)
      else parse_args (v # rest) a)"
| "parse_args rest a = a"

text \<open>
  What the operating system answers during one run: whether \<open>open\<close> with
  \<open>O_WRONLY | O_CREAT | O_APPEND\<close> and \<open>flock\<close> succeed, whether the \<open>ifstream\<close> on the
  log opens, the string that \<open>getCurrentTimestamp\<close> returns, and the return value of
  \<open>write\<close>.
\<close>

record append_env =
  open_ok :: bool
  lock_ok :: bool
  stream_ok :: bool
  clock :: string
  write_ret :: int

datatype append_error =
    UsageArgc
  | MissingParam
  | InvalidEvent
  | InvalidRoom
  | InvalidPerson
  | AuthFailed
  | OpenFailed
  | LockFailed
  | RuleViolation rule_error
  | WriteFailed

text \<open>The value returned by \<open>main\<close>.\<close>

fun append_exit :: "append_error + LogEntry \<Rightarrow> nat" where
  "append_exit (Inr e) = 0"
| "append_exit (Inl UsageArgc) = 2"
| "append_exit (Inl MissingParam) = 2"
| "append_exit (Inl InvalidEvent) = 2"
| "append_exit (Inl InvalidRoom) = 2"
| "append_exit (Inl InvalidPerson) = 2"
| "append_exit (Inl AuthFailed) = 1"
| "append_exit (Inl OpenFailed) = 1"
| "append_exit (Inl LockFailed) = 1"
| "append_exit (Inl (RuleViolation r)) = 2"
| "append_exit (Inl WriteFailed) = 1"

text \<open>
  The log file is \<open>None\<close> while it does not exist and \<open>Some\<close> of its bytes otherwise.
  \<open>rebuild_state\<close> is the block that reads the log back: an input stream that does not
  open leaves the state empty.
\<close>

definition rebuild_state :: "append_env \<Rightarrow> string \<Rightarrow> gallery_state" where
  "rebuild_state env content =
     (if stream_ok env then replay_lines Map.empty (getlines content) else Map.empty)"

text \<open>
  \<open>main\<close> of logappend: the result (the error, or the entry that was appended) and the
  log file after the run. \<open>open\<close> with \<open>O_CREAT\<close> creates a missing file, empty, before
  the lock and the rules; \<open>write\<close> on the \<open>O_APPEND\<close> descriptor adds the bytes it
  reports at the end of the file.
\<close>

definition logappend_main ::
    "(string \<Rightarrow> string) \<Rightarrow> append_env \<Rightarrow> string list \<Rightarrow> string option
       \<Rightarrow> (append_error + LogEntry) \<times> string option" where
  "logappend_main sha256Hex env argv fs =
     (if length argv \<noteq> 9 then (Inl UsageArgc, fs)
      else let a = parse_args (drop 1 argv) \<lparr>argToken = [], argEvent = [], argPerson = [], argRoom = []\<rparr> in
        if argToken a = [] \<or> argEvent a = [] \<or> argPerson a = [] \<or> argRoom a = []
          then (Inl MissingParam, fs)
        else if \<not> validateAction (argEvent a) then (Inl InvalidEvent, fs)
        else if \<not> validateRoomId (argRoom a) then (Inl InvalidRoom, fs)
        else if \<not> validatePersonId (argPerson a) then (Inl InvalidPerson, fs)
        else case authenticateToken sha256Hex (argToken a) Append getBuiltInTokenStore of
          None \<Rightarrow> (Inl AuthFailed, fs)
        | Some user \<Rightarrow>
            if \<not> open_ok env then (Inl OpenFailed, fs)
            else let content = (case fs of None \<Rightarrow> [] | Some c \<Rightarrow> c) in
              if \<not> lock_ok env then (Inl LockFailed, Some content)
              else case check_rules (rebuild_state env content) (argPerson a) (argEvent a) (argRoom a) of
                Some err \<Rightarrow> (Inl (RuleViolation err), Some content)
              | None \<Rightarrow>
                  let newEntry = \<lparr>timestamp = clock env, entryActorId = actorId user,
                                  personId = argPerson a, action = argEvent a, roomId = argRoom a\<rparr>;
                      logLine = formatLogEntry newEntry;
                      written = write_ret env;
                      content' = content @ (if written < 0 then [] else take (nat written) logLine)
                  in if written \<noteq> int (length logLine) then (Inl WriteFailed, Some content')
                     else (Inr newEntry, Some content'))"

section \<open>The read program (logread.cpp)\<close>

text \<open>
  What the operating system answers during one run of logread. \<open>open\<close> with
  \<open>O_RDONLY\<close> fails with \<open>ENOENT\<close> when the file does not exist, unless another error
  comes first (\<open>r_open_ok\<close> is false then); on a file that exists it fails only with
  such another error.
\<close>

record read_env =
  r_open_ok :: bool
  r_lock_ok :: bool
  r_stream_ok :: bool

datatype errno = ENOENT | OtherErrno

definition openFileRO :: "read_env \<Rightarrow> string option \<Rightarrow> errno + string" where
  "openFileRO env fs =
     (if \<not> r_open_ok env then Inl OtherErrno
      else case fs of None \<Rightarrow> Inl ENOENT | Some content \<Rightarrow> Inr content)"

datatype read_error =
    ReadUsage
  | ReadAuthFailed
  | ReadOpenFailed
  | ReadLockFailed
  | ReadStreamFailed

datatype read_output =
    NoLogFile
  | NoValidEntries
  | Parsed "LogEntry list"

fun read_exit :: "read_error + read_output \<Rightarrow> nat" where
  "read_exit (Inr out) = 0"
| "read_exit (Inl ReadUsage) = 2"
| "read_exit (Inl e) = 1"

text \<open>The entries a successful run prints, in the order printed.\<close>

fun printed_entries :: "read_output \<Rightarrow> LogEntry list" where
  "printed_entries NoLogFile = []"
| "printed_entries NoValidEntries = []"
| "printed_entries (Parsed es) = es"

text \<open>The loop that parses every line and pushes the parsed entries onto the vector.\<close>

fun read_loop :: "string list \<Rightarrow> LogEntry list \<Rightarrow> LogEntry list" where
  "read_loop [] entries = entries"
| "read_loop (line # rest) entries =
     (case parseLogLine line of
        Some e \<Rightarrow> read_loop rest (entries @ [e])
      | None \<Rightarrow> read_loop rest entries)"

definition logread_main ::
    "(string \<Rightarrow> string) \<Rightarrow> read_env \<Rightarrow> string list \<Rightarrow> string option
       \<Rightarrow> (read_error + read_output) \<times> string option" where
  "logread_main sha256Hex env argv fs =
     (if length argv \<noteq> 3 \<or> argv ! 1 \<noteq> ''-T'' then (Inl ReadUsage, fs)
      else case authenticateToken sha256Hex (argv ! 2) Read getBuiltInTokenStore of
        None \<Rightarrow> (Inl ReadAuthFailed, fs)
      | Some user \<Rightarrow>
          (case openFileRO env fs of
             Inl e \<Rightarrow> if e = ENOENT then (Inr NoLogFile, fs) else (Inl ReadOpenFailed, fs)
           | Inr content \<Rightarrow>
               if \<not> r_lock_ok env then (Inl ReadLockFailed, fs)
               else if \<not> r_stream_ok env then (Inl ReadStreamFailed, fs)
               else let entries = read_loop (getlines content) [] in
                 if entries = [] then (Inr NoValidEntries, fs) else (Inr (Parsed entries), fs)))"

section \<open>The specification's wording\<close>

text \<open>
  The definitions of this section follow the text of the specification, not the code;
  the theorems compare them with the definitions above.
\<close>

subsection \<open>Field rules and the line format\<close>

definition spec_digits :: "char set" where
  "spec_digits = set ''0123456789''"

definition spec_id_chars :: "char set" where
  "spec_id_chars =
     set ''ABCDEFGHIJKLMNOPQRSTUVWXYZabcdefghijklmnopqrstuvwxyz0123456789_-''"

definition spec_timestamp_ok :: "string \<Rightarrow> bool" where
  "spec_timestamp_ok ts = (1 \<le> length ts \<and> length ts \<le> 11 \<and> set ts \<subseteq> spec_digits)"

definition spec_id_ok :: "string \<Rightarrow> bool" where
  "spec_id_ok i = (1 \<le> length i \<and> length i \<le> 32 \<and> set i \<subseteq> spec_id_chars)"

definition spec_action_ok :: "string \<Rightarrow> bool" where
  "spec_action_ok a = (a \<in> {''ENTER'', ''MOVE'', ''EXIT''})"

definition spec_room_ok :: "string \<Rightarrow> bool" where
  "spec_room_ok r =
     (r \<in> {''lobby'', ''gallery1'', ''gallery2'', ''vault'', ''security'', ''storage''} \<or> r = ''-'')"

definition spec_record_ok :: "LogEntry \<Rightarrow> bool" where
  "spec_record_ok e =
     (spec_timestamp_ok (timestamp e) \<and> spec_id_ok (entryActorId e) \<and> spec_id_ok (personId e)
      \<and> spec_action_ok (action e) \<and> spec_room_ok (roomId e))"

definition spec_strip :: "string \<Rightarrow> string" where
  "spec_strip s = rev (dropWhile (\<lambda>c. c = CHR 0x0D \<or> c = CHR 0x0A) (rev s))"

fun spec_split :: "char \<Rightarrow> string \<Rightarrow> string list" where
  "spec_split d [] = [[]]"
| "spec_split d (c # cs) =
     (if c = d then [] # spec_split d cs
      else (c # hd (spec_split d cs)) # tl (spec_split d cs))"

definition spec_line_ok :: "string \<Rightarrow> bool" where
  "spec_line_ok line =
     (let parts = spec_split (CHR ''|'') (spec_strip line) in
      length parts = 5 \<and> spec_timestamp_ok (parts ! 0) \<and> spec_id_ok (parts ! 1)
      \<and> spec_id_ok (parts ! 2) \<and> spec_action_ok (parts ! 3) \<and> spec_room_ok (parts ! 4))"

subsection \<open>Replay\<close>

definition spec_effect :: "LogEntry \<Rightarrow> PersonState" where
  "spec_effect e =
     (if action e = ''ENTER'' \<or> action e = ''MOVE'' then \<lparr>inside = True, room = roomId e\<rparr>
      else \<lparr>inside = False, room = []\<rparr>)"

definition last_record_of :: "string \<Rightarrow> LogEntry list \<Rightarrow> LogEntry option" where
  "last_record_of p es = find (\<lambda>e. personId e = p) (rev es)"

text \<open>The state of a person as \<open>main\<close> reads it from the map.\<close>

definition person_state :: "gallery_state \<Rightarrow> string \<Rightarrow> PersonState" where
  "person_state st p = \<lparr>inside = currentlyInside st p, room = currentRoom st p\<rparr>"

definition state_ok :: "PersonState \<Rightarrow> bool" where
  "state_ok ps = (if inside ps then spec_room_ok (room ps) else room ps = [])"

subsection \<open>The transition table\<close>

datatype occupancy = Outside | Inside string

datatype event = ENTER | MOVE | EXIT

fun event_name :: "event \<Rightarrow> string" where
  "event_name ENTER = ''ENTER''"
| "event_name MOVE = ''MOVE''"
| "event_name EXIT = ''EXIT''"

definition occupancy_of :: "gallery_state \<Rightarrow> string \<Rightarrow> occupancy" where
  "occupancy_of st p = (if currentlyInside st p then Inside (currentRoom st p) else Outside)"

fun spec_allowed :: "occupancy \<Rightarrow> event \<Rightarrow> string \<Rightarrow> bool" where
  "spec_allowed Outside ENTER r = (r \<noteq> ''-'')"
| "spec_allowed (Inside r0) ENTER r = False"
| "spec_allowed Outside MOVE r = False"
| "spec_allowed (Inside r0) MOVE r = (r \<noteq> ''-'' \<and> r \<noteq> r0)"
| "spec_allowed Outside EXIT r = False"
| "spec_allowed (Inside r0) EXIT r = (r = ''-'' \<or> r = r0)"

datatype reason = AlreadyInside | NotInside | SameRoom | ConcreteRoomRequired | RoomMismatch

fun reason_of :: "rule_error \<Rightarrow> reason" where
  "reason_of EnterAlreadyInside = AlreadyInside"
| "reason_of EnterConcreteRoom = ConcreteRoomRequired"
| "reason_of MoveNotInside = NotInside"
| "reason_of MoveSameRoom = SameRoom"
| "reason_of MoveConcreteRoom = ConcreteRoomRequired"
| "reason_of ExitNotInside = NotInside"
| "reason_of ExitRoomMismatch = RoomMismatch"

text \<open>The preconditions of the table's row that the request breaks.\<close>

fun spec_violations :: "occupancy \<Rightarrow> event \<Rightarrow> string \<Rightarrow> reason list" where
  "spec_violations Outside ENTER r = (if r = ''-'' then [ConcreteRoomRequired] else [])"
| "spec_violations (Inside r0) ENTER r = [AlreadyInside]"
| "spec_violations Outside MOVE r = [NotInside]"
| "spec_violations (Inside r0) MOVE r =
     (if r = r0 then [SameRoom] else []) @ (if r = ''-'' then [ConcreteRoomRequired] else [])"
| "spec_violations Outside EXIT r = [NotInside]"
| "spec_violations (Inside r0) EXIT r = (if r = ''-'' \<or> r = r0 then [] else [RoomMismatch])"

subsection \<open>The log file\<close>

text \<open>The bytes of the log; a log file that does not exist holds none.\<close>

definition log_content :: "string option \<Rightarrow> string" where
  "log_content fs = (case fs of None \<Rightarrow> [] | Some c \<Rightarrow> c)"

section \<open>Lemmas about the codec\<close>

lemma all_chars_iff: "all_chars ok s \<longleftrightarrow> (\<forall>c\<in>set s. ok c)"
  by (induction s) auto

lemma split_loop_skip:
  "d \<notin> set p \<Longrightarrow> split_loop d (p @ rest) out cur = split_loop d rest out (cur @ p)"
  by (induction p arbitrary: cur) auto

lemma split_loop_part:
  "d \<notin> set p \<Longrightarrow> split_loop d (p @ d # rest) out cur = split_loop d rest (out @ [cur @ p]) []"
  by (simp add: split_loop_skip)

lemma split_loop_last:
  "d \<notin> set p \<Longrightarrow> split_loop d p out cur = out @ [cur @ p]"
  using split_loop_skip [of d p "[]" out cur] by simp

lemma strip_eol_keep:
  "s = [] \<or> (last s \<noteq> CHR 0x0A \<and> last s \<noteq> CHR 0x0D) \<Longrightarrow> strip_eol s = s"
  by (subst strip_eol.simps) auto

lemma strip_eol_snoc_lf: "strip_eol (s @ [CHR 0x0A]) = strip_eol s"
  by (subst strip_eol.simps) simp

lemma strip_eol_rev: "strip_eol s = rev (dropWhile (\<lambda>c. c = CHR 0x0A \<or> c = CHR 0x0D) (rev s))"
proof (induction s rule: rev_induct)
  case Nil
  show ?case by (subst strip_eol.simps) simp
next
  case (snoc x xs)
  show ?case by (subst strip_eol.simps) (simp add: snoc)
qed


lemma char_range_image:
  assumes "hi \<le> 256"
  shows "((lo::nat) \<le> of_char c \<and> (of_char c :: nat) < hi) \<longleftrightarrow> c \<in> set (map char_of [lo..<hi])"
proof
  assume "lo \<le> of_char c \<and> (of_char c :: nat) < hi"
  then have "(of_char c :: nat) \<in> {lo..<hi}" by simp
  then have "char_of (of_char c :: nat) \<in> char_of ` {lo..<hi}" by (rule imageI)
  then show "c \<in> set (map char_of [lo..<hi])" by simp
next
  assume "c \<in> set (map char_of [lo..<hi])"
  then obtain n :: nat where n: "lo \<le> n" "n < hi" and c: "c = char_of n" by auto
  from n assms have "n mod 256 = n" by simp
  with c have "(of_char c :: nat) = n" by simp
  with n show "lo \<le> of_char c \<and> (of_char c :: nat) < hi" by simp
qed

lemma digits_enum: "map char_of [48..<58::nat] = ''0123456789''"
  by code_simp

lemma upper_enum: "map char_of [65..<91::nat] = ''ABCDEFGHIJKLMNOPQRSTUVWXYZ''"
  by code_simp

lemma lower_enum: "map char_of [97..<123::nat] = ''abcdefghijklmnopqrstuvwxyz''"
  by code_simp

lemma isdigit_iff: "isdigit c \<longleftrightarrow> c \<in> spec_digits"
proof -
  have "isdigit c \<longleftrightarrow> (48 \<le> (of_char c :: nat) \<and> (of_char c :: nat) < 58)"
    by (auto simp: isdigit_def Let_def)
  also have "\<dots> \<longleftrightarrow> c \<in> set (map char_of [48..<58::nat])"
    by (rule char_range_image) simp
  finally show ?thesis by (simp only: digits_enum spec_digits_def)
qed

lemma isalnum_iff:
  "isalnum c \<longleftrightarrow> c \<in> set ''0123456789'' \<union> set ''ABCDEFGHIJKLMNOPQRSTUVWXYZ'' \<union> set ''abcdefghijklmnopqrstuvwxyz''"
proof -
  have "(48 \<le> (of_char c :: nat) \<and> (of_char c :: nat) < 58) \<longleftrightarrow> c \<in> set (map char_of [48..<58::nat])"
    by (rule char_range_image) simp
  then have d: "(48 \<le> (of_char c :: nat) \<and> (of_char c :: nat) < 58) \<longleftrightarrow> c \<in> set ''0123456789''"
    by (simp only: digits_enum)
  have "(65 \<le> (of_char c :: nat) \<and> (of_char c :: nat) < 91) \<longleftrightarrow> c \<in> set (map char_of [65..<91::nat])"
    by (rule char_range_image) simp
  then have u: "(65 \<le> (of_char c :: nat) \<and> (of_char c :: nat) < 91) \<longleftrightarrow> c \<in> set ''ABCDEFGHIJKLMNOPQRSTUVWXYZ''"
    by (simp only: upper_enum)
  have "(97 \<le> (of_char c :: nat) \<and> (of_char c :: nat) < 123) \<longleftrightarrow> c \<in> set (map char_of [97..<123::nat])"
    by (rule char_range_image) simp
  then have l: "(97 \<le> (of_char c :: nat) \<and> (of_char c :: nat) < 123) \<longleftrightarrow> c \<in> set ''abcdefghijklmnopqrstuvwxyz''"
    by (simp only: lower_enum)
  have "isalnum c \<longleftrightarrow> (48 \<le> (of_char c :: nat) \<and> (of_char c :: nat) < 58)
      \<or> (65 \<le> (of_char c :: nat) \<and> (of_char c :: nat) < 91)
      \<or> (97 \<le> (of_char c :: nat) \<and> (of_char c :: nat) < 123)"
    unfolding isalnum_def Let_def by arith
  then show ?thesis unfolding d u l by blast
qed

lemma id_chars_split:
  "''ABCDEFGHIJKLMNOPQRSTUVWXYZabcdefghijklmnopqrstuvwxyz0123456789_-'' =
     ''ABCDEFGHIJKLMNOPQRSTUVWXYZ'' @ ''abcdefghijklmnopqrstuvwxyz'' @ ''0123456789'' @ ''_-''"
  by simp

lemma id_char_iff: "(isalnum c \<or> c = CHR ''_'' \<or> c = CHR ''-'') \<longleftrightarrow> c \<in> spec_id_chars"
proof -
  have "spec_id_chars = set ''ABCDEFGHIJKLMNOPQRSTUVWXYZ'' \<union> (set ''abcdefghijklmnopqrstuvwxyz''
      \<union> (set ''0123456789'' \<union> set ''_-''))"
    unfolding spec_id_chars_def by (simp only: id_chars_split set_append)
  moreover have "c \<in> set ''_-'' \<longleftrightarrow> c = CHR ''_'' \<or> c = CHR ''-''" by simp
  ultimately show ?thesis unfolding isalnum_iff by blast
qed


lemma validateTimestamp_iff: "validateTimestamp ts \<longleftrightarrow> spec_timestamp_ok ts"
  by (cases ts) (auto simp: validateTimestamp_def spec_timestamp_ok_def all_chars_iff isdigit_iff)

lemma validIdLike_iff: "validIdLike s \<longleftrightarrow> spec_id_ok s"
proof -
  have "all_chars (\<lambda>c. isalnum c \<or> c = CHR ''_'' \<or> c = CHR ''-'') s \<longleftrightarrow> set s \<subseteq> spec_id_chars"
    by (auto simp: all_chars_iff id_char_iff)
  then show ?thesis
    by (cases s) (auto simp: validIdLike_def spec_id_ok_def)
qed

lemma validateAction_iff: "validateAction a \<longleftrightarrow> spec_action_ok a"
  by (auto simp: validateAction_def spec_action_ok_def)

lemma validateRoomId_iff: "validateRoomId r \<longleftrightarrow> spec_room_ok r"
  by (simp add: validateRoomId_def ROOMS_def spec_room_ok_def)

lemma spec_split_nonempty: "spec_split d s \<noteq> []"
  by (induction s) auto

lemma split_loop_spec:
  "split_loop d s out cur = out @ (cur @ hd (spec_split d s)) # tl (spec_split d s)"
proof (induction s arbitrary: out cur)
  case Nil
  show ?case by simp
next
  case (Cons c cs)
  show ?case
  proof (cases "c = d")
    case True
    then show ?thesis using spec_split_nonempty [of d cs] by (simp add: Cons)
  next
    case False
    then show ?thesis by (simp add: Cons)
  qed
qed

lemma split_str_spec: "split_str s d = spec_split d s"
  using spec_split_nonempty [of d s] by (simp add: split_str_def split_loop_spec)

lemma strip_eol_spec: "strip_eol s = spec_strip s"
  unfolding spec_strip_def strip_eol_rev
  by (rule arg_cong [where f = rev]) (rule arg_cong [where f = "\<lambda>P. dropWhile P (rev s)"], auto)

lemma parseLogLine_None_iff: "parseLogLine line = None \<longleftrightarrow> \<not> spec_line_ok line"
  unfolding parseLogLine_def spec_line_ok_def Let_def split_str_spec strip_eol_spec
    validatePersonId_def validateTimestamp_iff validIdLike_iff validateAction_iff validateRoomId_iff
  by simp


lemma bar_not_digit: "CHR ''|'' \<notin> spec_digits"
  by (simp add: spec_digits_def)

lemma bar_not_id_char: "CHR ''|'' \<notin> spec_id_chars"
  by (simp add: spec_id_chars_def)

lemma timestamp_no_bar: "spec_timestamp_ok ts \<Longrightarrow> CHR ''|'' \<notin> set ts"
  using bar_not_digit by (auto simp: spec_timestamp_ok_def)

lemma id_no_bar: "spec_id_ok i \<Longrightarrow> CHR ''|'' \<notin> set i"
  using bar_not_id_char by (auto simp: spec_id_ok_def)

lemma action_no_bar: "spec_action_ok a \<Longrightarrow> CHR ''|'' \<notin> set a"
  by (auto simp: spec_action_ok_def)

lemma room_no_bar: "spec_room_ok r \<Longrightarrow> CHR ''|'' \<notin> set r"
  by (auto simp: spec_room_ok_def)

lemma room_end: "spec_room_ok r \<Longrightarrow> r \<noteq> [] \<and> last r \<noteq> CHR 0x0A \<and> last r \<noteq> CHR 0x0D"
  by (auto simp: spec_room_ok_def)

lemma split_five:
  assumes "d \<notin> set a" "d \<notin> set b" "d \<notin> set c" "d \<notin> set e" "d \<notin> set f"
  shows "split_str (a @ [d] @ b @ [d] @ c @ [d] @ e @ [d] @ f) d = [a, b, c, e, f]"
  using assms by (simp add: split_str_def split_loop_part split_loop_last)

lemma strip_formatted:
  assumes "spec_room_ok (roomId e)"
  shows "strip_eol (formatLogEntry e) =
     timestamp e @ [CHR ''|''] @ entryActorId e @ [CHR ''|''] @ personId e @ [CHR ''|'']
       @ action e @ [CHR ''|''] @ roomId e"
proof -
  let ?body = "timestamp e @ [CHR ''|''] @ entryActorId e @ [CHR ''|''] @ personId e @ [CHR ''|'']
       @ action e @ [CHR ''|''] @ roomId e"
  have "formatLogEntry e = ?body @ [CHR 0x0A]" by (simp add: formatLogEntry_def)
  then have "strip_eol (formatLogEntry e) = strip_eol ?body" by (simp only: strip_eol_snoc_lf)
  moreover have "strip_eol ?body = ?body"
    using room_end [OF assms] by (intro strip_eol_keep) simp
  ultimately show ?thesis by simp
qed

lemma formatted_parts:
  assumes "spec_record_ok e"
  shows "split_str (strip_eol (formatLogEntry e)) (CHR ''|'') =
      [timestamp e, entryActorId e, personId e, action e, roomId e]"
proof -
  from assms have ok: "spec_timestamp_ok (timestamp e)" "spec_id_ok (entryActorId e)"
      "spec_id_ok (personId e)" "spec_action_ok (action e)" "spec_room_ok (roomId e)"
    by (simp_all add: spec_record_ok_def)
  show ?thesis
    unfolding strip_formatted [OF ok(5)]
    by (rule split_five) (simp_all add: ok timestamp_no_bar id_no_bar action_no_bar room_no_bar)
qed

lemma parse_of_parts:
  assumes "split_str (strip_eol line) (CHR ''|'') = [ts, aid, pid, act, rm]"
    and "spec_timestamp_ok ts" "spec_id_ok aid" "spec_id_ok pid" "spec_action_ok act" "spec_room_ok rm"
  shows "parseLogLine line =
     Some \<lparr>timestamp = ts, entryActorId = aid, personId = pid, action = act, roomId = rm\<rparr>"
  unfolding parseLogLine_def assms(1) Let_def
  using assms(2-6) by (simp add: validatePersonId_def validateTimestamp_iff validIdLike_iff
      validateAction_iff validateRoomId_iff)

section \<open>Lemmas about authentication\<close>

lemma byte_of_inj: "byte_of x = byte_of y \<longleftrightarrow> x = y"
proof
  assume "byte_of x = byte_of y"
  then have "unat (of_nat (of_char x) :: 8 word) = unat (of_nat (of_char y) :: 8 word)"
    by (simp add: byte_of_def)
  then have "(of_char x :: nat) mod 256 = of_char y mod 256"
    by (simp add: unat_of_nat)
  then show "x = y" by simp
qed simp

lemma xor_zero_iff: "(a :: 8 word) XOR b = 0 \<longleftrightarrow> a = b"
proof
  assume h: "a XOR b = 0"
  have "a = (a XOR b) XOR b" by (simp add: xor.assoc)
  with h show "a = b" by simp
qed simp

lemma diff_fold_zero:
  "foldl (\<lambda>diff (x, y). diff OR (byte_of x XOR byte_of y)) acc zs = 0
     \<longleftrightarrow> acc = 0 \<and> (\<forall>(x, y)\<in>set zs. x = y)"
proof (induction zs arbitrary: acc)
  case Nil
  show ?case by simp
next
  case (Cons z zs)
  obtain x y where z: "z = (x, y)" by (cases z)
  have "acc OR (byte_of x XOR byte_of y) = 0 \<longleftrightarrow> acc = 0 \<and> x = y"
    by (simp add: or_eq_0_iff xor_zero_iff byte_of_inj)
  then show ?case by (auto simp: z Cons)
qed

lemma constantTimeEquals_iff: "constantTimeEquals a b \<longleftrightarrow> a = b"
  by (auto simp: constantTimeEquals_def diff_fold_zero list_eq_iff_zip_eq)

lemma scan_store_no_match:
  "\<forall>u\<in>set store. tokenHash u \<noteq> h \<Longrightarrow> scan_store h opn store = None"
  by (induction store) (auto simp: constantTimeEquals_iff)

lemma scan_store_denied:
  assumes "distinct (map tokenHash store)" "u \<in> set store" "tokenHash u = h"
    "\<not> permissionAllows (permission u) opn"
  shows "scan_store h opn store = None"
  using assms
proof (induction store)
  case Nil
  then show ?case by simp
next
  case (Cons v vs)
  show ?case
  proof (cases "tokenHash v = h")
    case True
    with Cons.prems have "v = u" by (auto simp: image_iff)
    with Cons.prems True show ?thesis by (simp add: constantTimeEquals_iff)
  next
    case False
    with Cons.prems have "u \<in> set vs" by auto
    with Cons False show ?thesis by (simp add: constantTimeEquals_iff)
  qed
qed

lemma BUILT_IN_STORE_distinct: "distinct (map tokenHash getBuiltInTokenStore)"
  by (simp add: getBuiltInTokenStore_def BUILT_IN_STORE_def)

section \<open>Lemmas about replay\<close>

lemma parseLogLine_Some: "parseLogLine line = Some e \<Longrightarrow> spec_record_ok e"
  unfolding parseLogLine_def Let_def spec_record_ok_def
  by (auto simp: validatePersonId_def validateTimestamp_iff validIdLike_iff
      validateAction_iff validateRoomId_iff split: if_splits)

lemma replay_lines_append:
  "replay_lines st (xs @ ys) = replay_lines (replay_lines st xs) ys"
  by (induction xs arbitrary: st) simp_all

lemma read_loop_append: "read_loop (xs @ ys) acc = read_loop ys (read_loop xs acc)"
  by (induction xs arbitrary: acc) (simp_all split: option.splits)

lemma read_loop_map_filter: "read_loop lines acc = acc @ List.map_filter parseLogLine lines"
  by (induction lines arbitrary: acc) (simp_all add: List.map_filter_simps split: option.splits)

lemma replay_lines_fold:
  "foldl apply_entry st (read_loop lines acc) = replay_lines (foldl apply_entry st acc) lines"
  by (induction lines arbitrary: acc) (simp_all add: replay_step_def split: option.splits)

lemma apply_entry_lookup:
  assumes "spec_action_ok (action e)"
  shows "apply_entry st e p = (if personId e = p then Some (spec_effect e) else st p)"
  using assms
  by (auto simp: apply_entry_def spec_effect_def spec_action_ok_def Let_def split: option.splits)

lemma last_record_of_snoc:
  "last_record_of p (es @ [e]) = (if personId e = p then Some e else last_record_of p es)"
  by (simp add: last_record_of_def)

lemma fold_last_record:
  assumes "\<forall>e\<in>set es. spec_action_ok (action e)"
  shows "foldl apply_entry Map.empty es p = map_option spec_effect (last_record_of p es)"
  using assms
proof (induction es rule: rev_induct)
  case Nil
  show ?case by (simp add: last_record_of_def)
next
  case (snoc e es)
  then show ?case by (simp add: apply_entry_lookup last_record_of_snoc)
qed

lemma person_state_lookup:
  "person_state st p = (case st p of None \<Rightarrow> \<lparr>inside = False, room = []\<rparr>
     | Some ps \<Rightarrow> \<lparr>inside = inside ps, room = (if inside ps then room ps else [])\<rparr>)"
  by (simp add: person_state_def currentlyInside_def currentRoom_def split: option.splits)

lemma replay_step_state_ok:
  assumes "\<forall>p ps. st p = Some ps \<longrightarrow> state_ok ps"
  shows "\<forall>p ps. replay_step st line p = Some ps \<longrightarrow> state_ok ps"
proof (cases "parseLogLine line")
  case None
  with assms show ?thesis by (simp add: replay_step_def)
next
  case (Some e)
  then have ok: "spec_record_ok e" by (rule parseLogLine_Some)
  then have "state_ok (spec_effect e)"
    by (simp add: state_ok_def spec_effect_def spec_record_ok_def)
  with assms ok Some show ?thesis
    by (simp add: replay_step_def apply_entry_lookup spec_record_ok_def)
qed

lemma replay_lines_state_ok:
  assumes "\<forall>p ps. st p = Some ps \<longrightarrow> state_ok ps"
  shows "\<forall>p ps. replay_lines st lines p = Some ps \<longrightarrow> state_ok ps"
  using assms
proof (induction lines arbitrary: st)
  case Nil
  then show ?case by simp
next
  case (Cons l ls)
  from Cons.prems have "\<forall>p ps. replay_step st l p = Some ps \<longrightarrow> state_ok ps"
    by (rule replay_step_state_ok)
  then show ?case by (simp add: Cons.IH)
qed

section \<open>Lemmas about the append program\<close>

lemma auth_nonempty: "authenticateToken sha tok opn store = Some u \<Longrightarrow> tok \<noteq> []"
  by (auto simp: authenticateToken_def split: if_splits)

lemma validateAction_nonempty: "validateAction a \<Longrightarrow> a \<noteq> []"
  by (auto simp: validateAction_def)

lemma validateRoomId_nonempty: "validateRoomId r \<Longrightarrow> r \<noteq> []"
  by (auto simp: validateRoomId_def ROOMS_def)

lemma validatePersonId_nonempty: "validatePersonId p \<Longrightarrow> p \<noteq> []"
  by (auto simp: validatePersonId_def validIdLike_def split: if_splits)

lemma formatLogEntry_nonempty: "formatLogEntry e \<noteq> []"
  by (simp add: formatLogEntry_def)

lemma logappend_main_rules:
  assumes "length argv = 9"
    and "parse_args (drop 1 argv) \<lparr>argToken = [], argEvent = [], argPerson = [], argRoom = []\<rparr> = a"
    and "validateAction (argEvent a)" "validateRoomId (argRoom a)" "validatePersonId (argPerson a)"
    and "authenticateToken sha (argToken a) Append getBuiltInTokenStore = Some user"
    and "open_ok env" "lock_ok env"
  shows "logappend_main sha env argv fs =
     (case check_rules (rebuild_state env (log_content fs)) (argPerson a) (argEvent a) (argRoom a) of
        Some err \<Rightarrow> (Inl (RuleViolation err), Some (log_content fs))
      | None \<Rightarrow>
          (if write_ret env = int (length (formatLogEntry \<lparr>timestamp = clock env, entryActorId = actorId user,
                 personId = argPerson a, action = argEvent a, roomId = argRoom a\<rparr>))
           then Inr \<lparr>timestamp = clock env, entryActorId = actorId user,
                 personId = argPerson a, action = argEvent a, roomId = argRoom a\<rparr>
           else Inl WriteFailed,
           Some (log_content fs @ (if write_ret env < 0 then []
              else take (nat (write_ret env)) (formatLogEntry \<lparr>timestamp = clock env, entryActorId = actorId user,
                 personId = argPerson a, action = argEvent a, roomId = argRoom a\<rparr>)))))"
proof -
  note ne = auth_nonempty [OF assms(6)] validateAction_nonempty [OF assms(3)]
    validateRoomId_nonempty [OF assms(4)] validatePersonId_nonempty [OF assms(5)]
  show ?thesis
    using assms ne
    by (simp add: logappend_main_def Let_def log_content_def split: option.splits)
qed

lemma logappend_main_frame:
  "append_exit (fst (logappend_main sha env argv fs)) = 2 \<Longrightarrow>
     (\<exists>err. logappend_main sha env argv fs = (Inl (RuleViolation err), Some (log_content fs))) \<or>
     snd (logappend_main sha env argv fs) = fs \<and>
       (\<forall>err. fst (logappend_main sha env argv fs) \<noteq> Inl (RuleViolation err))"
proof -
  define a where "a = parse_args (drop 1 argv) \<lparr>argToken = [], argEvent = [], argPerson = [], argRoom = []\<rparr>"
  define missing where "missing \<longleftrightarrow> argToken a = [] \<or> argEvent a = [] \<or> argPerson a = [] \<or> argRoom a = []"
  assume "append_exit (fst (logappend_main sha env argv fs)) = 2"
  then show ?thesis
    unfolding logappend_main_def Let_def log_content_def a_def [symmetric] missing_def [symmetric]
    by (simp split: if_splits option.splits)
qed

lemma check_rules_dash:
  "ev = ''ENTER'' \<or> ev = ''MOVE'' \<Longrightarrow> check_rules st p ev ''-'' \<noteq> None"
  by (auto simp: check_rules_def Let_def)

text \<open>
  The rule checks and the transition table, one statement each, for use below.
\<close>

lemma check_rules_allowed:
  "check_rules st p (event_name ev) r = None \<longleftrightarrow> spec_allowed (occupancy_of st p) ev r"
proof (cases "currentlyInside st p")
  case True
  then show ?thesis
    by (cases ev) (auto simp: check_rules_def occupancy_of_def Let_def)
next
  case False
  then show ?thesis
    by (cases ev) (auto simp: check_rules_def occupancy_of_def Let_def)
qed

lemma check_rules_reason:
  assumes "check_rules st p (event_name ev) r = Some err"
  shows "reason_of err \<in> set (spec_violations (occupancy_of st p) ev r)"
proof (cases "currentlyInside st p")
  case True
  with assms show ?thesis
    by (cases ev) (auto simp: check_rules_def occupancy_of_def Let_def split: if_splits)
next
  case False
  with assms show ?thesis
    by (cases ev) (auto simp: check_rules_def occupancy_of_def Let_def split: if_splits)
qed

text \<open>
  What logappend does on a run whose arguments pass the syntactic checks, whose token
  authenticates for appending, and in which the log is opened, locked \<^emph>\<open>and read back\<close>.
  The state is the replay of all lines of the log. An event that the transition table
  does not allow is rejected with a rule violation that names a broken precondition of
  its row, and the log holds the same bytes as before. If \<open>write\<close> reports the whole
  line, the formatted entry is appended exactly when the table allows the event. Whatever
  \<open>write\<close> reports, bytes are added to the log only when the table allows the event.
\<close>

lemma append_when_log_read:
  assumes "length argv = 9"
    and "parse_args (drop 1 argv) \<lparr>argToken = [], argEvent = [], argPerson = [], argRoom = []\<rparr> = a"
    and "event_name ev = argEvent a" "validateRoomId (argRoom a)" "validatePersonId (argPerson a)"
    and "authenticateToken sha (argToken a) Append getBuiltInTokenStore = Some user"
    and "open_ok env" "lock_ok env" "stream_ok env"
    and "st = replay_lines Map.empty (getlines (log_content fs))"
    and "entry = \<lparr>timestamp = clock env, entryActorId = actorId user,
                  personId = argPerson a, action = argEvent a, roomId = argRoom a\<rparr>"
  shows "(\<not> spec_allowed (occupancy_of st (argPerson a)) ev (argRoom a) \<longrightarrow>
            (\<exists>err. logappend_main sha env argv fs = (Inl (RuleViolation err), Some (log_content fs)) \<and>
               reason_of err \<in> set (spec_violations (occupancy_of st (argPerson a)) ev (argRoom a)))) \<and>
         (write_ret env = int (length (formatLogEntry entry)) \<longrightarrow>
            (logappend_main sha env argv fs = (Inr entry, Some (log_content fs @ formatLogEntry entry))
               \<longleftrightarrow> spec_allowed (occupancy_of st (argPerson a)) ev (argRoom a))) \<and>
         (log_content (snd (logappend_main sha env argv fs)) \<noteq> log_content fs \<longrightarrow>
            spec_allowed (occupancy_of st (argPerson a)) ev (argRoom a))"
proof -
  have va: "validateAction (argEvent a)"
    unfolding assms(3) [symmetric] by (cases ev) (simp_all add: validateAction_def)
  have st: "rebuild_state env (log_content fs) = st"
    using assms(9,10) by (simp add: rebuild_state_def)
  note main = logappend_main_rules [OF assms(1,2) va assms(4-8), of fs, unfolded st, folded assms(11)]
  note tab = check_rules_allowed [of st "argPerson a" ev "argRoom a", unfolded assms(3)]
  show ?thesis
  proof (cases "check_rules st (argPerson a) (argEvent a) (argRoom a)")
    case None
    with tab have "spec_allowed (occupancy_of st (argPerson a)) ev (argRoom a)" by simp
    with None show ?thesis
      unfolding main by (simp add: log_content_def)
  next
    case (Some err)
    with tab have no: "\<not> spec_allowed (occupancy_of st (argPerson a)) ev (argRoom a)" by simp
    from Some have "reason_of err \<in> set (spec_violations (occupancy_of st (argPerson a)) ev (argRoom a))"
      unfolding assms(3) [symmetric] by (rule check_rules_reason)
    with Some no show ?thesis
      unfolding main by (simp add: log_content_def formatLogEntry_nonempty)
  qed
qed

lemma append_when_log_read_example:
  "authenticateToken test_digest ''alex-write-123'' Append getBuiltInTokenStore
     = Some \<lparr>actorId = ''guard_alex'', permission = AppendOnly,
         tokenHash = ''e45703ec0bf6e9b29fec9e4819f33c7c8a302d93eccef0f7bddd57c80c93f5a0''\<rparr> \<and>
   check_rules (replay_lines Map.empty (getlines (''1700000000|guard_alex|emp001|ENTER|lobby'' @ [CHR 0x0A])))
       ''emp001'' ''MOVE'' ''gallery1'' = None \<and>
   logappend_main test_digest
       \<lparr>open_ok = True, lock_ok = True, stream_ok = True, clock = ''1700000001'', write_ret = 43\<rparr>
       [''logappend'', ''-T'', ''alex-write-123'', ''-E'', ''MOVE'', ''-P'', ''emp001'', ''-R'', ''gallery1'']
       (Some (''1700000000|guard_alex|emp001|ENTER|lobby'' @ [CHR 0x0A]))
     = (Inr \<lparr>timestamp = ''1700000001'', entryActorId = ''guard_alex'', personId = ''emp001'',
              action = ''MOVE'', roomId = ''gallery1''\<rparr>,
        Some (''1700000000|guard_alex|emp001|ENTER|lobby'' @ [CHR 0x0A]
              @ ''1700000001|guard_alex|emp001|MOVE|gallery1'' @ [CHR 0x0A]))"
proof -
  let ?env = "\<lparr>open_ok = True, lock_ok = True, stream_ok = True, clock = ''1700000001'', write_ret = 43\<rparr>"
  let ?argv = "[''logappend'', ''-T'', ''alex-write-123'', ''-E'', ''MOVE'', ''-P'', ''emp001'', ''-R'', ''gallery1'']"
  let ?a = "\<lparr>argToken = ''alex-write-123'', argEvent = ''MOVE'', argPerson = ''emp001'', argRoom = ''gallery1''\<rparr>"
  let ?user = "\<lparr>actorId = ''guard_alex'', permission = AppendOnly,
         tokenHash = ''e45703ec0bf6e9b29fec9e4819f33c7c8a302d93eccef0f7bddd57c80c93f5a0''\<rparr>"
  let ?fs = "Some (''1700000000|guard_alex|emp001|ENTER|lobby'' @ [CHR 0x0A])"
  let ?entry = "\<lparr>timestamp = ''1700000001'', entryActorId = ''guard_alex'', personId = ''emp001'',
              action = ''MOVE'', roomId = ''gallery1''\<rparr>"
  have h1: "length ?argv = 9" by simp
  have h2: "parse_args (drop 1 ?argv) \<lparr>argToken = [], argEvent = [], argPerson = [], argRoom = []\<rparr> = ?a"
    by simp
  have h3: "event_name MOVE = argEvent ?a" by simp
  have h4: "validateRoomId (argRoom ?a)" by (simp add: validateRoomId_def ROOMS_def)
  have h5: "validatePersonId (argPerson ?a)" by code_simp
  have auth: "authenticateToken test_digest ''alex-write-123'' Append getBuiltInTokenStore = Some ?user"
    by code_simp
  then have h6: "authenticateToken test_digest (argToken ?a) Append getBuiltInTokenStore = Some ?user"
    by simp
  have h7: "open_ok ?env" "lock_ok ?env" "stream_ok ?env" by simp_all
  have h11: "?entry = \<lparr>timestamp = clock ?env, entryActorId = actorId ?user,
                  personId = argPerson ?a, action = argEvent ?a, roomId = argRoom ?a\<rparr>"
    by simp
  have ok: "check_rules (replay_lines Map.empty (getlines (''1700000000|guard_alex|emp001|ENTER|lobby'' @ [CHR 0x0A])))
       ''emp001'' ''MOVE'' ''gallery1'' = None"
    by code_simp
  then have al: "spec_allowed (occupancy_of (replay_lines Map.empty (getlines (log_content ?fs))) (argPerson ?a))
       MOVE (argRoom ?a)"
    using check_rules_allowed [of "replay_lines Map.empty (getlines (log_content ?fs))" "''emp001''" MOVE "''gallery1''"]
    by (simp add: log_content_def)
  have len: "write_ret ?env = int (length (formatLogEntry ?entry))"
    by (simp add: formatLogEntry_def)
  have line: "formatLogEntry ?entry = ''1700000001|guard_alex|emp001|MOVE|gallery1'' @ [CHR 0x0A]"
    by (simp add: formatLogEntry_def)
  from append_when_log_read [OF h1 h2 h3 h4 h5 h6 h7 refl h11, of ?fs] al len
  have "logappend_main test_digest ?env ?argv ?fs
      = (Inr ?entry, Some (log_content ?fs @ formatLogEntry ?entry))"
    by (simp add: log_content_def)
  then have "logappend_main test_digest ?env ?argv ?fs
      = (Inr ?entry, Some (''1700000000|guard_alex|emp001|ENTER|lobby'' @ [CHR 0x0A]
              @ ''1700000001|guard_alex|emp001|MOVE|gallery1'' @ [CHR 0x0A]))"
    by (simp add: log_content_def line)
  with auth ok show ?thesis by blast
qed

section \<open>The claims\<close>

text \<open>
  C1. A record is to be appended if and only if the event is valid, by the transition
  table, against the state replayed from every record before it. logappend breaks this
  when the input stream on the log does not open: the block that reads the log back runs
  only \<open>if (in.is_open())\<close> and has no other branch, so the state stays empty and the
  event is checked against the empty state. Here the log has emp001 inside the lobby, the
  table does not allow a second ENTER, and the run appends the ENTER and succeeds.
  logread ends with an error when its input stream does not open.
\<close>

theorem append_unread_log_accepts_invalid:
  "occupancy_of (replay_lines Map.empty (getlines (''1700000000|guard_alex|emp001|ENTER|lobby'' @ [CHR 0x0A])))
       ''emp001'' = Inside ''lobby'' \<and>
   \<not> spec_allowed (Inside ''lobby'') ENTER ''gallery1'' \<and>
   check_rules (replay_lines Map.empty (getlines (''1700000000|guard_alex|emp001|ENTER|lobby'' @ [CHR 0x0A])))
       ''emp001'' ''ENTER'' ''gallery1'' = Some EnterAlreadyInside \<and>
   logappend_main test_digest
       \<lparr>open_ok = True, lock_ok = True, stream_ok = False, clock = ''1700000001'', write_ret = 44\<rparr>
       [''logappend'', ''-T'', ''alex-write-123'', ''-E'', ''ENTER'', ''-P'', ''emp001'', ''-R'', ''gallery1'']
       (Some (''1700000000|guard_alex|emp001|ENTER|lobby'' @ [CHR 0x0A]))
     = (Inr \<lparr>timestamp = ''1700000001'', entryActorId = ''guard_alex'', personId = ''emp001'',
              action = ''ENTER'', roomId = ''gallery1''\<rparr>,
        Some (''1700000000|guard_alex|emp001|ENTER|lobby'' @ [CHR 0x0A]
              @ ''1700000001|guard_alex|emp001|ENTER|gallery1'' @ [CHR 0x0A])) \<and>
   append_exit (Inr \<lparr>timestamp = ''1700000001'', entryActorId = ''guard_alex'', personId = ''emp001'',
              action = ''ENTER'', roomId = ''gallery1''\<rparr>) = 0"
proof (intro conjI)
  show "occupancy_of (replay_lines Map.empty (getlines (''1700000000|guard_alex|emp001|ENTER|lobby'' @ [CHR 0x0A])))
       ''emp001'' = Inside ''lobby''"
    by code_simp
  show "\<not> spec_allowed (Inside ''lobby'') ENTER ''gallery1''"
    by simp
  show "check_rules (replay_lines Map.empty (getlines (''1700000000|guard_alex|emp001|ENTER|lobby'' @ [CHR 0x0A])))
       ''emp001'' ''ENTER'' ''gallery1'' = Some EnterAlreadyInside"
    by code_simp
  show "logappend_main test_digest
       \<lparr>open_ok = True, lock_ok = True, stream_ok = False, clock = ''1700000001'', write_ret = 44\<rparr>
       [''logappend'', ''-T'', ''alex-write-123'', ''-E'', ''ENTER'', ''-P'', ''emp001'', ''-R'', ''gallery1'']
       (Some (''1700000000|guard_alex|emp001|ENTER|lobby'' @ [CHR 0x0A]))
     = (Inr \<lparr>timestamp = ''1700000001'', entryActorId = ''guard_alex'', personId = ''emp001'',
              action = ''ENTER'', roomId = ''gallery1''\<rparr>,
        Some (''1700000000|guard_alex|emp001|ENTER|lobby'' @ [CHR 0x0A]
              @ ''1700000001|guard_alex|emp001|ENTER|gallery1'' @ [CHR 0x0A]))"
    by code_simp
  show "append_exit (Inr \<lparr>timestamp = ''1700000001'', entryActorId = ''guard_alex'', personId = ''emp001'',
              action = ''ENTER'', roomId = ''gallery1''\<rparr>) = 0"
    by simp
qed

text \<open>
  C2. For every prior state of the person (outside, or inside a room) and every requested
  event with its room, the rule checks accept exactly when the transition table allows
  the request, and every rejection names a precondition of the table's row that the
  request breaks.
\<close>

theorem check_rules_matches_table:
  "(check_rules st p (event_name ev) r = None \<longleftrightarrow> spec_allowed (occupancy_of st p) ev r) \<and>
   (\<forall>err. check_rules st p (event_name ev) r = Some err \<longrightarrow>
      reason_of err \<in> set (spec_violations (occupancy_of st p) ev r)) \<and>
   (spec_violations (occupancy_of st p) ev r = [] \<longleftrightarrow> spec_allowed (occupancy_of st p) ev r)"
proof (cases "currentlyInside st p")
  case True
  then show ?thesis
    by (cases ev) (auto simp: check_rules_def occupancy_of_def Let_def)
next
  case False
  then show ?thesis
    by (cases ev) (auto simp: check_rules_def occupancy_of_def Let_def)
qed

theorem check_rules_matches_table_witness:
  "check_rules [''emp003'' \<mapsto> \<lparr>inside = True, room = ''lobby''\<rparr>] ''emp003'' ''MOVE'' ''lobby''
     = Some MoveSameRoom \<and>
   occupancy_of [''emp003'' \<mapsto> \<lparr>inside = True, room = ''lobby''\<rparr>] ''emp003'' = Inside ''lobby'' \<and>
   \<not> spec_allowed (Inside ''lobby'') MOVE ''lobby'' \<and>
   SameRoom \<in> set (spec_violations (Inside ''lobby'') MOVE ''lobby'')"
proof -
  let ?st = "[''emp003'' \<mapsto> \<lparr>inside = True, room = ''lobby''\<rparr>]"
  have c: "check_rules ?st ''emp003'' ''MOVE'' ''lobby'' = Some MoveSameRoom"
    by (simp add: check_rules_def currentlyInside_def currentRoom_def)
  have o: "occupancy_of ?st ''emp003'' = Inside ''lobby''"
    by (simp add: occupancy_of_def currentlyInside_def currentRoom_def)
  from c o check_rules_matches_table [of ?st "''emp003''" MOVE "''lobby''"]
  show ?thesis by simp
qed

text \<open>
  C3 (as amended). A run of logappend that ends in a usage or validation error (exit
  status 2) never changes the bytes of the log. When the error is a malformed request
  (argument count, missing parameter, invalid action, room or person identifier) the file
  system is as before. A rule violation is found after the log has been opened with
  \<open>O_CREAT\<close>: a log file that exists is as before, and a log file that did not exist
  exists afterwards and is empty.
\<close>

theorem usage_error_frame:
  "append_exit (fst (logappend_main sha env argv fs)) = 2 \<longrightarrow>
     log_content (snd (logappend_main sha env argv fs)) = log_content fs \<and>
     (fs \<noteq> None \<longrightarrow> snd (logappend_main sha env argv fs) = fs) \<and>
     ((\<forall>err. fst (logappend_main sha env argv fs) \<noteq> Inl (RuleViolation err)) \<longrightarrow>
        snd (logappend_main sha env argv fs) = fs) \<and>
     ((\<exists>err. fst (logappend_main sha env argv fs) = Inl (RuleViolation err)) \<and> fs = None \<longrightarrow>
        snd (logappend_main sha env argv fs) = Some [])"
proof
  assume "append_exit (fst (logappend_main sha env argv fs)) = 2"
  then consider
      (rule) err where "logappend_main sha env argv fs = (Inl (RuleViolation err), Some (log_content fs))"
    | (usage) "snd (logappend_main sha env argv fs) = fs"
        "\<forall>err. fst (logappend_main sha env argv fs) \<noteq> Inl (RuleViolation err)"
    using logappend_main_frame [of sha env argv fs] by blast
  then show "log_content (snd (logappend_main sha env argv fs)) = log_content fs \<and>
     (fs \<noteq> None \<longrightarrow> snd (logappend_main sha env argv fs) = fs) \<and>
     ((\<forall>err. fst (logappend_main sha env argv fs) \<noteq> Inl (RuleViolation err)) \<longrightarrow>
        snd (logappend_main sha env argv fs) = fs) \<and>
     ((\<exists>err. fst (logappend_main sha env argv fs) = Inl (RuleViolation err)) \<and> fs = None \<longrightarrow>
        snd (logappend_main sha env argv fs) = Some [])"
  proof cases
    case rule
    then show ?thesis by (auto simp: log_content_def)
  next
    case usage
    then show ?thesis by simp
  qed
qed

theorem usage_error_frame_witness:
  "logappend_main test_digest
       \<lparr>open_ok = True, lock_ok = True, stream_ok = True, clock = ''1700000001'', write_ret = 43\<rparr>
       [''logappend'', ''-T'', ''alex-write-123'', ''-E'', ''ENTER'', ''-P'', ''emp001'', ''-R'', ''gallery1'']
       (Some (''1700000000|guard_alex|emp001|ENTER|lobby'' @ [CHR 0x0A]))
     = (Inl (RuleViolation EnterAlreadyInside),
        Some (''1700000000|guard_alex|emp001|ENTER|lobby'' @ [CHR 0x0A])) \<and>
   append_exit (Inl (RuleViolation EnterAlreadyInside)) = 2"
proof -
  let ?env = "\<lparr>open_ok = True, lock_ok = True, stream_ok = True, clock = ''1700000001'', write_ret = 43\<rparr>"
  let ?argv = "[''logappend'', ''-T'', ''alex-write-123'', ''-E'', ''ENTER'', ''-P'', ''emp001'', ''-R'', ''gallery1'']"
  let ?fs = "Some (''1700000000|guard_alex|emp001|ENTER|lobby'' @ [CHR 0x0A])"
  have f: "fst (logappend_main test_digest ?env ?argv ?fs) = Inl (RuleViolation EnterAlreadyInside)"
    by code_simp
  then have e: "append_exit (fst (logappend_main test_digest ?env ?argv ?fs)) = 2" by simp
  from usage_error_frame [of test_digest ?env ?argv ?fs] e
  have "snd (logappend_main test_digest ?env ?argv ?fs) = ?fs" by blast
  with f have "logappend_main test_digest ?env ?argv ?fs = (Inl (RuleViolation EnterAlreadyInside), ?fs)"
    by (simp add: prod_eq_iff)
  then show ?thesis by simp
qed

text \<open>
  As the claim is written (no change of the file system at all), it fails: with no log
  file, the request that test 3.1 of test\_cases.cpp makes ends with exit status 2 and
  leaves a log file behind.
\<close>

theorem rule_violation_creates_log_counterexample:
  "\<not> (append_exit (fst (logappend_main test_digest
          \<lparr>open_ok = True, lock_ok = True, stream_ok = True, clock = ''1700000001'', write_ret = 0\<rparr>
          [''logappend'', ''-T'', ''alex-write-123'', ''-E'', ''MOVE'', ''-P'', ''emp002'', ''-R'', ''lobby'']
          None)) = 2 \<longrightarrow>
       snd (logappend_main test_digest
          \<lparr>open_ok = True, lock_ok = True, stream_ok = True, clock = ''1700000001'', write_ret = 0\<rparr>
          [''logappend'', ''-T'', ''alex-write-123'', ''-E'', ''MOVE'', ''-P'', ''emp002'', ''-R'', ''lobby'']
          None) = None)"
proof -
  have "logappend_main test_digest
          \<lparr>open_ok = True, lock_ok = True, stream_ok = True, clock = ''1700000001'', write_ret = 0\<rparr>
          [''logappend'', ''-T'', ''alex-write-123'', ''-E'', ''MOVE'', ''-P'', ''emp002'', ''-R'', ''lobby'']
          None = (Inl (RuleViolation MoveNotInside), Some [])"
    by code_simp
  then show ?thesis by simp
qed

text \<open>
  C4. Round trip: a record whose five fields satisfy their field rules is reproduced
  exactly by parsing the line that \<open>formatLogEntry\<close> writes for it.
\<close>

theorem parse_format_roundtrip:
  assumes "spec_record_ok e"
  shows "parseLogLine (formatLogEntry e) = Some e"
proof -
  from assms have ok: "spec_timestamp_ok (timestamp e)" "spec_id_ok (entryActorId e)"
      "spec_id_ok (personId e)" "spec_action_ok (action e)" "spec_room_ok (roomId e)"
    by (simp_all add: spec_record_ok_def)
  have "parseLogLine (formatLogEntry e) =
      Some \<lparr>timestamp = timestamp e, entryActorId = entryActorId e, personId = personId e,
            action = action e, roomId = roomId e\<rparr>"
    using formatted_parts [OF assms] ok by (rule parse_of_parts)
  then show ?thesis by simp
qed

theorem parse_format_roundtrip_witness:
  "spec_record_ok \<lparr>timestamp = ''1700000000'', entryActorId = ''guard_alex'',
      personId = ''emp001'', action = ''EXIT'', roomId = ''-''\<rparr> \<and>
   parseLogLine (formatLogEntry \<lparr>timestamp = ''1700000000'', entryActorId = ''guard_alex'',
      personId = ''emp001'', action = ''EXIT'', roomId = ''-''\<rparr>)
     = Some \<lparr>timestamp = ''1700000000'', entryActorId = ''guard_alex'',
      personId = ''emp001'', action = ''EXIT'', roomId = ''-''\<rparr>"
proof -
  have h: "spec_record_ok \<lparr>timestamp = ''1700000000'', entryActorId = ''guard_alex'',
      personId = ''emp001'', action = ''EXIT'', roomId = ''-''\<rparr>"
    by (simp add: spec_record_ok_def spec_timestamp_ok_def spec_id_ok_def spec_action_ok_def
        spec_room_ok_def spec_digits_def spec_id_chars_def)
  from h parse_format_roundtrip [OF h] show ?thesis by (rule conjI)
qed

text \<open>
  C5. The parser rejects a line exactly when, after the trailing carriage returns and
  line feeds are stripped, splitting on the bar does not give five parts or a part breaks
  its field rule. A rejected line changes neither the replayed state nor the entries that
  are read, and the lines after it are processed as if it were not there.
\<close>

theorem parse_rejects_malformed:
  "(parseLogLine line = None \<longleftrightarrow> \<not> spec_line_ok line) \<and>
   (parseLogLine line = None \<longrightarrow>
      replay_lines st (before @ line # after) = replay_lines st (before @ after) \<and>
      read_loop (before @ line # after) acc = read_loop (before @ after) acc)"
  by (simp add: parseLogLine_None_iff [symmetric] replay_lines_append read_loop_append
      replay_step_def)

theorem parse_rejects_malformed_witness:
  "parseLogLine ''1|a|p|ENTER'' = None \<and> \<not> spec_line_ok ''1|a|p|ENTER'' \<and>
   replay_lines Map.empty ([''1|a|p|ENTER|lobby''] @ ''1|a|p|ENTER'' # [''2|a|p|MOVE|vault''])
     = replay_lines Map.empty ([''1|a|p|ENTER|lobby''] @ [''2|a|p|MOVE|vault'']) \<and>
   read_loop ([''1|a|p|ENTER|lobby''] @ ''1|a|p|ENTER'' # [''2|a|p|MOVE|vault'']) []
     = read_loop ([''1|a|p|ENTER|lobby''] @ [''2|a|p|MOVE|vault'']) []"
proof -
  have h: "parseLogLine ''1|a|p|ENTER'' = None" by code_simp
  from h parse_rejects_malformed [of "''1|a|p|ENTER''" Map.empty "[''1|a|p|ENTER|lobby'']"
      "[''2|a|p|MOVE|vault'']" "[]"]
  show ?thesis by blast
qed

text \<open>
  C6 (as amended). On the append path the sentinel is accepted only for EXIT: the rule
  checks reject an ENTER or a MOVE whose room is the sentinel in every state, and a run of
  logappend with such a request ends in an error and adds no byte to the log. The log
  parser checks each field on its own and accepts a line whose action is ENTER or MOVE
  and whose room is the sentinel.
\<close>

theorem sentinel_rejected_on_append:
  "(ev = ''ENTER'' \<or> ev = ''MOVE'' \<longrightarrow> check_rules st p ev ''-'' \<noteq> None) \<and>
   (parse_args (drop 1 argv) \<lparr>argToken = [], argEvent = [], argPerson = [], argRoom = []\<rparr> = a \<and>
    (argEvent a = ''ENTER'' \<or> argEvent a = ''MOVE'') \<and> argRoom a = ''-'' \<longrightarrow>
      (\<exists>err. fst (logappend_main sha env argv fs) = Inl err) \<and>
      log_content (snd (logappend_main sha env argv fs)) = log_content fs) \<and>
   (spec_timestamp_ok ts \<and> spec_id_ok aid \<and> spec_id_ok pid \<and> (act = ''ENTER'' \<or> act = ''MOVE'') \<longrightarrow>
      parseLogLine (formatLogEntry
          \<lparr>timestamp = ts, entryActorId = aid, personId = pid, action = act, roomId = ''-''\<rparr>)
        = Some \<lparr>timestamp = ts, entryActorId = aid, personId = pid, action = act, roomId = ''-''\<rparr>)"
proof (intro conjI impI)
  assume "ev = ''ENTER'' \<or> ev = ''MOVE''"
  then show "check_rules st p ev ''-'' \<noteq> None" by (rule check_rules_dash)
next
  assume h: "parse_args (drop 1 argv) \<lparr>argToken = [], argEvent = [], argPerson = [], argRoom = []\<rparr> = a \<and>
    (argEvent a = ''ENTER'' \<or> argEvent a = ''MOVE'') \<and> argRoom a = ''-''"
  define missing where "missing \<longleftrightarrow> argToken a = [] \<or> argEvent a = [] \<or> argPerson a = [] \<or> argRoom a = []"
  from h have a: "parse_args (drop 1 argv) \<lparr>argToken = [], argEvent = [], argPerson = [], argRoom = []\<rparr> = a"
    and r: "argRoom a = ''-''" by simp_all
  from h have "check_rules (rebuild_state env (case fs of None \<Rightarrow> [] | Some c \<Rightarrow> c))
      (argPerson a) (argEvent a) ''-'' \<noteq> None"
    by (intro check_rules_dash) simp
  then obtain err where c: "check_rules (rebuild_state env (case fs of None \<Rightarrow> [] | Some c \<Rightarrow> c))
      (argPerson a) (argEvent a) ''-'' = Some err"
    by blast
  have main: "(\<exists>err. fst (logappend_main sha env argv fs) = Inl err) \<and>
      log_content (snd (logappend_main sha env argv fs)) = log_content fs"
    unfolding logappend_main_def a Let_def missing_def [symmetric] r c
    by (simp add: log_content_def split: option.splits)
  from main show "\<exists>err. fst (logappend_main sha env argv fs) = Inl err" by blast
  from main show "log_content (snd (logappend_main sha env argv fs)) = log_content fs" by blast
next
  assume "spec_timestamp_ok ts \<and> spec_id_ok aid \<and> spec_id_ok pid \<and> (act = ''ENTER'' \<or> act = ''MOVE'')"
  then have ok: "spec_timestamp_ok ts" "spec_id_ok aid" "spec_id_ok pid" "spec_action_ok act"
      "spec_room_ok ''-''"
    by (auto simp: spec_action_ok_def spec_room_ok_def)
  then have "spec_record_ok \<lparr>timestamp = ts, entryActorId = aid, personId = pid, action = act, roomId = ''-''\<rparr>"
    by (simp add: spec_record_ok_def)
  from formatted_parts [OF this]
  have "split_str (strip_eol (formatLogEntry
          \<lparr>timestamp = ts, entryActorId = aid, personId = pid, action = act, roomId = ''-''\<rparr>))
        (CHR ''|'') = [ts, aid, pid, act, ''-'']"
    by simp
  then show "parseLogLine (formatLogEntry
          \<lparr>timestamp = ts, entryActorId = aid, personId = pid, action = act, roomId = ''-''\<rparr>)
        = Some \<lparr>timestamp = ts, entryActorId = aid, personId = pid, action = act, roomId = ''-''\<rparr>"
    using ok by (rule parse_of_parts)
qed

theorem sentinel_rejected_on_append_witness:
  "parse_args (drop 1 [''logappend'', ''-T'', ''alex-write-123'', ''-E'', ''ENTER'', ''-P'', ''emp001'', ''-R'', ''-''])
       \<lparr>argToken = [], argEvent = [], argPerson = [], argRoom = []\<rparr>
     = \<lparr>argToken = ''alex-write-123'', argEvent = ''ENTER'', argPerson = ''emp001'', argRoom = ''-''\<rparr> \<and>
   (\<exists>err. fst (logappend_main test_digest
       \<lparr>open_ok = True, lock_ok = True, stream_ok = True, clock = ''1700000001'', write_ret = 36\<rparr>
       [''logappend'', ''-T'', ''alex-write-123'', ''-E'', ''ENTER'', ''-P'', ''emp001'', ''-R'', ''-'']
       (Some [])) = Inl err) \<and>
   log_content (snd (logappend_main test_digest
       \<lparr>open_ok = True, lock_ok = True, stream_ok = True, clock = ''1700000001'', write_ret = 36\<rparr>
       [''logappend'', ''-T'', ''alex-write-123'', ''-E'', ''ENTER'', ''-P'', ''emp001'', ''-R'', ''-'']
       (Some []))) = []"
proof -
  let ?argv = "[''logappend'', ''-T'', ''alex-write-123'', ''-E'', ''ENTER'', ''-P'', ''emp001'', ''-R'', ''-'']"
  let ?a = "\<lparr>argToken = ''alex-write-123'', argEvent = ''ENTER'', argPerson = ''emp001'', argRoom = ''-''\<rparr>"
  let ?env = "\<lparr>open_ok = True, lock_ok = True, stream_ok = True, clock = ''1700000001'', write_ret = 36\<rparr>"
  have h: "parse_args (drop 1 ?argv) \<lparr>argToken = [], argEvent = [], argPerson = [], argRoom = []\<rparr> = ?a"
    by simp
  have e: "argEvent ?a = ''ENTER'' \<or> argEvent ?a = ''MOVE''" "argRoom ?a = ''-''" by simp_all
  from h e sentinel_rejected_on_append [of _ _ _ ?argv ?a test_digest ?env "Some []"]
  have "(\<exists>err. fst (logappend_main test_digest ?env ?argv (Some [])) = Inl err) \<and>
      log_content (snd (logappend_main test_digest ?env ?argv (Some []))) = log_content (Some [])"
    by blast
  with h show ?thesis by (simp add: log_content_def)
qed

text \<open>
  As the claim is written (the parser, too, never accepts such a record), it fails: the
  parser accepts the line of an ENTER whose room is the sentinel.
\<close>

theorem parser_accepts_enter_sentinel_counterexample:
  "parseLogLine ''1700000000|guard_alex|emp001|ENTER|-''
     = Some \<lparr>timestamp = ''1700000000'', entryActorId = ''guard_alex'', personId = ''emp001'',
          action = ''ENTER'', roomId = ''-''\<rparr>"
  by code_simp

text \<open>
  C7. The replay loop is a left fold of \<open>apply_entry\<close> over the parsed entries in file
  order. For a sequence of valid records, the map entry of a person after the fold is the
  effect of the last record that mentions the person (ENTER and MOVE: inside, in the
  record's room; EXIT: outside, empty room), and a person whom no record mentions has no
  entry and is read as outside with the empty room.
\<close>

theorem replay_last_record:
  "replay_lines Map.empty lines = foldl apply_entry Map.empty (read_loop lines []) \<and>
   ((\<forall>e\<in>set es. spec_record_ok e) \<longrightarrow>
      foldl apply_entry Map.empty es p = map_option spec_effect (last_record_of p es) \<and>
      person_state (foldl apply_entry Map.empty es) p =
        (case last_record_of p es of
           None \<Rightarrow> \<lparr>inside = False, room = []\<rparr>
         | Some e \<Rightarrow> spec_effect e))"
proof (intro conjI impI)
  show "replay_lines Map.empty lines = foldl apply_entry Map.empty (read_loop lines [])"
    using replay_lines_fold [of Map.empty lines "[]"] by simp
next
  assume "\<forall>e\<in>set es. spec_record_ok e"
  then have "\<forall>e\<in>set es. spec_action_ok (action e)"
    by (simp add: spec_record_ok_def)
  then show l: "foldl apply_entry Map.empty es p = map_option spec_effect (last_record_of p es)"
    by (rule fold_last_record)
  show "person_state (foldl apply_entry Map.empty es) p =
        (case last_record_of p es of
           None \<Rightarrow> \<lparr>inside = False, room = []\<rparr>
         | Some e \<Rightarrow> spec_effect e)"
    unfolding person_state_lookup l
    by (simp add: spec_effect_def split: option.splits)
qed

theorem replay_last_record_witness:
  "spec_record_ok \<lparr>timestamp = ''1'', entryActorId = ''a'', personId = ''p'', action = ''ENTER'', roomId = ''lobby''\<rparr> \<and>
   spec_record_ok \<lparr>timestamp = ''2'', entryActorId = ''a'', personId = ''q'', action = ''ENTER'', roomId = ''vault''\<rparr> \<and>
   spec_record_ok \<lparr>timestamp = ''3'', entryActorId = ''a'', personId = ''p'', action = ''MOVE'', roomId = ''storage''\<rparr> \<and>
   foldl apply_entry Map.empty
     [\<lparr>timestamp = ''1'', entryActorId = ''a'', personId = ''p'', action = ''ENTER'', roomId = ''lobby''\<rparr>,
      \<lparr>timestamp = ''2'', entryActorId = ''a'', personId = ''q'', action = ''ENTER'', roomId = ''vault''\<rparr>,
      \<lparr>timestamp = ''3'', entryActorId = ''a'', personId = ''p'', action = ''MOVE'', roomId = ''storage''\<rparr>] ''p''
     = Some \<lparr>inside = True, room = ''storage''\<rparr>"
proof -
  let ?es = "[\<lparr>timestamp = ''1'', entryActorId = ''a'', personId = ''p'', action = ''ENTER'', roomId = ''lobby''\<rparr>,
      \<lparr>timestamp = ''2'', entryActorId = ''a'', personId = ''q'', action = ''ENTER'', roomId = ''vault''\<rparr>,
      \<lparr>timestamp = ''3'', entryActorId = ''a'', personId = ''p'', action = ''MOVE'', roomId = ''storage''\<rparr>]"
  have h: "\<forall>e\<in>set ?es. spec_record_ok e"
    by (simp add: spec_record_ok_def spec_timestamp_ok_def spec_id_ok_def spec_action_ok_def
        spec_room_ok_def spec_digits_def spec_id_chars_def)
  have l: "map_option spec_effect (last_record_of ''p'' ?es) = Some \<lparr>inside = True, room = ''storage''\<rparr>"
    by (simp add: last_record_of_def spec_effect_def)
  from replay_last_record [of "[]" ?es "''p''"] h
  have "foldl apply_entry Map.empty ?es ''p'' = map_option spec_effect (last_record_of ''p'' ?es)"
    by blast
  with h l show ?thesis by simp
qed

text \<open>
  C8. A presented secret whose digest matches no record of the store and a presented
  secret whose digest matches a record without the permission for the requested operation
  get the same answer from \<open>authenticateToken\<close>, the null result. The scan stops at the
  first record that matches, so the statement needs a store in which no two records share
  a hash; the built-in store is such a store.
\<close>

theorem auth_failure_indistinguishable:
  "(distinct (map tokenHash store) \<and>
    (\<forall>u\<in>set store. \<not> constantTimeEquals (sha s1) (tokenHash u)) \<and>
    (\<exists>u\<in>set store. constantTimeEquals (sha s2) (tokenHash u) \<and> \<not> permissionAllows (permission u) opn)
    \<longrightarrow> authenticateToken sha s1 opn store = None \<and> authenticateToken sha s2 opn store = None) \<and>
   ((\<forall>u\<in>set getBuiltInTokenStore. \<not> constantTimeEquals (sha s1) (tokenHash u)) \<and>
    (\<exists>u\<in>set getBuiltInTokenStore.
        constantTimeEquals (sha s2) (tokenHash u) \<and> \<not> permissionAllows (permission u) opn)
    \<longrightarrow> authenticateToken sha s1 opn getBuiltInTokenStore = None \<and>
        authenticateToken sha s2 opn getBuiltInTokenStore = None)"
proof -
  have gen: "authenticateToken sha s1 opn st = None \<and> authenticateToken sha s2 opn st = None"
    if d: "distinct (map tokenHash st)"
      and n: "\<forall>u\<in>set st. \<not> constantTimeEquals (sha s1) (tokenHash u)"
      and m: "\<exists>u\<in>set st. constantTimeEquals (sha s2) (tokenHash u) \<and> \<not> permissionAllows (permission u) opn"
    for st
  proof
    from n have "\<forall>u\<in>set st. tokenHash u \<noteq> sha s1"
      by (auto simp: constantTimeEquals_iff)
    then have "scan_store (sha s1) opn st = None" by (rule scan_store_no_match)
    then show "authenticateToken sha s1 opn st = None" by (simp add: authenticateToken_def)
    from m obtain u where u: "u \<in> set st" "tokenHash u = sha s2" "\<not> permissionAllows (permission u) opn"
      by (auto simp: constantTimeEquals_iff)
    from d u have "scan_store (sha s2) opn st = None" by (rule scan_store_denied)
    then show "authenticateToken sha s2 opn st = None" by (simp add: authenticateToken_def)
  qed
  show ?thesis using gen [of store] gen [OF BUILT_IN_STORE_distinct] by blast
qed

theorem auth_failure_indistinguishable_witness:
  "constantTimeEquals (test_digest ''kim-read-456'') (tokenHash (getBuiltInTokenStore ! 1)) \<and>
   permission (getBuiltInTokenStore ! 1) = ReadOnly \<and>
   authenticateToken test_digest ''guess'' Append getBuiltInTokenStore = None \<and>
   authenticateToken test_digest ''kim-read-456'' Append getBuiltInTokenStore = None"
proof -
  have n: "\<forall>u\<in>set getBuiltInTokenStore. \<not> constantTimeEquals (test_digest ''guess'') (tokenHash u)"
    by (simp add: getBuiltInTokenStore_def BUILT_IN_STORE_def test_digest_def constantTimeEquals_iff)
  have k: "constantTimeEquals (test_digest ''kim-read-456'') (tokenHash (getBuiltInTokenStore ! 1))"
      "permission (getBuiltInTokenStore ! 1) = ReadOnly"
    by (simp_all add: getBuiltInTokenStore_def BUILT_IN_STORE_def test_digest_def constantTimeEquals_iff)
  have "getBuiltInTokenStore ! 1 \<in> set getBuiltInTokenStore"
    by (simp add: getBuiltInTokenStore_def BUILT_IN_STORE_def)
  with k have m: "\<exists>u\<in>set getBuiltInTokenStore.
       constantTimeEquals (test_digest ''kim-read-456'') (tokenHash u) \<and>
       \<not> permissionAllows (permission u) Append"
    by (intro bexI [of _ "getBuiltInTokenStore ! 1"]) simp_all
  from n m auth_failure_indistinguishable [of getBuiltInTokenStore test_digest "''guess''"
      "''kim-read-456''" Append]
  have "authenticateToken test_digest ''guess'' Append getBuiltInTokenStore = None \<and>
      authenticateToken test_digest ''kim-read-456'' Append getBuiltInTokenStore = None"
    by blast
  with k show ?thesis by simp
qed

text \<open>
  C9. A run of logread never changes the log file. After a successful authentication for
  reading, and when \<open>open\<close> meets no error other than the absence of the file: if the log
  file does not exist the run succeeds with nothing to print; if it exists and the lock
  and the input stream are obtained, the run succeeds and prints exactly the entries of
  the lines that the parser accepts, in file order.
\<close>

theorem logread_returns_valid_records:
  "snd (logread_main sha env argv fs) = fs \<and>
   (length argv = 3 \<and> argv ! 1 = ''-T'' \<and>
    authenticateToken sha (argv ! 2) Read getBuiltInTokenStore \<noteq> None \<and> r_open_ok env \<longrightarrow>
      (fs = None \<longrightarrow> logread_main sha env argv fs = (Inr NoLogFile, None)) \<and>
      (\<forall>content. fs = Some content \<and> r_lock_ok env \<and> r_stream_ok env \<longrightarrow>
         (\<exists>out. logread_main sha env argv fs = (Inr out, Some content) \<and>
            read_exit (Inr out) = 0 \<and>
            printed_entries out = List.map_filter parseLogLine (getlines content))))"
proof -
  have frame: "snd (logread_main sha env argv fs) = fs"
    by (simp add: logread_main_def Let_def split: option.splits sum.splits)
  have absent: "logread_main sha env argv None = (Inr NoLogFile, None)"
    if "length argv = 3" "argv ! 1 = ''-T''"
      "authenticateToken sha (argv ! 2) Read getBuiltInTokenStore \<noteq> None" "r_open_ok env"
    using that by (auto simp: logread_main_def openFileRO_def)
  have present: "\<exists>out. logread_main sha env argv (Some content) = (Inr out, Some content) \<and>
            read_exit (Inr out) = 0 \<and>
            printed_entries out = List.map_filter parseLogLine (getlines content)"
    if "length argv = 3" "argv ! 1 = ''-T''"
      "authenticateToken sha (argv ! 2) Read getBuiltInTokenStore \<noteq> None" "r_open_ok env"
      "r_lock_ok env" "r_stream_ok env" for content
    using that by (auto simp: logread_main_def openFileRO_def Let_def read_loop_map_filter)
  from frame absent present show ?thesis by blast
qed

theorem logread_returns_valid_records_witness:
  "authenticateToken test_digest ''kim-read-456'' Read getBuiltInTokenStore \<noteq> None \<and>
   logread_main test_digest \<lparr>r_open_ok = True, r_lock_ok = True, r_stream_ok = True\<rparr>
       [''logread'', ''-T'', ''kim-read-456'']
       (Some (''1|guard_alex|emp001|ENTER|lobby'' @ [CHR 0x0A] @ ''not a record'' @ [CHR 0x0A]
              @ ''2|guard_alex|emp001|EXIT|-'' @ [CHR 0x0A]))
     = (Inr (Parsed [\<lparr>timestamp = ''1'', entryActorId = ''guard_alex'', personId = ''emp001'',
                       action = ''ENTER'', roomId = ''lobby''\<rparr>,
                     \<lparr>timestamp = ''2'', entryActorId = ''guard_alex'', personId = ''emp001'',
                       action = ''EXIT'', roomId = ''-''\<rparr>]),
        Some (''1|guard_alex|emp001|ENTER|lobby'' @ [CHR 0x0A] @ ''not a record'' @ [CHR 0x0A]
              @ ''2|guard_alex|emp001|EXIT|-'' @ [CHR 0x0A]))"
proof -
  let ?env = "\<lparr>r_open_ok = True, r_lock_ok = True, r_stream_ok = True\<rparr>"
  let ?argv = "[''logread'', ''-T'', ''kim-read-456'']"
  let ?c = "''1|guard_alex|emp001|ENTER|lobby'' @ [CHR 0x0A] @ ''not a record'' @ [CHR 0x0A]
              @ ''2|guard_alex|emp001|EXIT|-'' @ [CHR 0x0A]"
  have a: "authenticateToken test_digest ''kim-read-456'' Read getBuiltInTokenStore \<noteq> None"
    by code_simp
  have l: "List.map_filter parseLogLine (getlines ?c) =
      [\<lparr>timestamp = ''1'', entryActorId = ''guard_alex'', personId = ''emp001'',
          action = ''ENTER'', roomId = ''lobby''\<rparr>,
       \<lparr>timestamp = ''2'', entryActorId = ''guard_alex'', personId = ''emp001'',
          action = ''EXIT'', roomId = ''-''\<rparr>]"
    by code_simp
  from a logread_returns_valid_records [of test_digest ?env ?argv "Some ?c"]
  obtain out where o: "logread_main test_digest ?env ?argv (Some ?c) = (Inr out, Some ?c)"
      "printed_entries out = List.map_filter parseLogLine (getlines ?c)"
    by auto
  have "out = Parsed (List.map_filter parseLogLine (getlines ?c))"
    using o(2) l by (cases out) simp_all
  with o(1) l a show ?thesis by simp
qed

text \<open>
  C10. After the replay of any sequence of lines (in particular of lines that the parser
  accepts), every entry of the state map is either outside with the empty room or inside
  with a room that is one of the six room names or the sentinel; the same holds for the
  state that \<open>main\<close> reads for a person. The replay applies no rule across fields: the
  line of an ENTER with the sentinel as room leaves the person inside the room named by
  the sentinel.
\<close>

theorem replay_state_invariant:
  "(\<forall>q ps. replay_lines Map.empty lines q = Some ps \<longrightarrow> state_ok ps) \<and>
   state_ok (person_state (replay_lines Map.empty lines) p) \<and>
   replay_lines Map.empty [''1|a|p|ENTER|-''] ''p'' = Some \<lparr>inside = True, room = ''-''\<rparr>"
proof (intro conjI)
  show inv: "\<forall>q ps. replay_lines Map.empty lines q = Some ps \<longrightarrow> state_ok ps"
    by (rule replay_lines_state_ok) simp
  show "state_ok (person_state (replay_lines Map.empty lines) p)"
  proof (cases "replay_lines Map.empty lines p")
    case None
    then show ?thesis by (simp add: person_state_lookup state_ok_def)
  next
    case (Some ps)
    with inv have "state_ok ps" by blast
    with Some show ?thesis by (simp add: person_state_lookup state_ok_def)
  qed
  show "replay_lines Map.empty [''1|a|p|ENTER|-''] ''p'' = Some \<lparr>inside = True, room = ''-''\<rparr>"
    by code_simp
qed

theorem replay_state_invariant_witness:
  "replay_lines Map.empty [''1|a|p|ENTER|lobby'', ''2|a|p|EXIT|lobby'', ''3|a|q|MOVE|vault''] ''q''
     = Some \<lparr>inside = True, room = ''vault''\<rparr> \<and>
   state_ok \<lparr>inside = True, room = ''vault''\<rparr>"
proof -
  let ?lines = "[''1|a|p|ENTER|lobby'', ''2|a|p|EXIT|lobby'', ''3|a|q|MOVE|vault'']"
  have h: "replay_lines Map.empty ?lines ''q'' = Some \<lparr>inside = True, room = ''vault''\<rparr>"
    by code_simp
  from replay_state_invariant [of ?lines "''q''"] h
  have "state_ok \<lparr>inside = True, room = ''vault''\<rparr>" by blast
  with h show ?thesis by (rule conjI)
qed

end
